theory Spec2Isabelle
  imports Main "HOL-Library.Word"
begin

section \<open>Machine types\<close>

text \<open>
  \<open>BatchHandler.h\<close> works on \<open>uint32_t\<close> counters and \<open>char\<close> buffers. Arithmetic on
  \<open>uint32_t\<close> wraps modulo \<open>2 ^ 32\<close>, which is what \<open>+\<close> and \<open>-\<close> on \<open>32 word\<close> do.
\<close>

type_synonym uint32_t = "32 word"
type_synonym byte = "8 word"

section \<open>ByteBuffer\<close>

text \<open>
  \<open>struct ByteBuffer { char * buff; uint32_t capacity; uint32_t position; }\<close>.
  The pointer \<open>buff\<close> is modelled by the memory block it points to: a list of the bytes
  that may be accessed through it. \<open>NULL\<close> is the empty block. The field \<open>capacity\<close> is
  stored separately, as in the struct; nothing in the struct ties it to the size of the block.
\<close>

record ByteBuffer =
  buff :: "byte list"
  capacity :: uint32_t
  position :: uint32_t

text \<open>The constructor \<open>ByteBuffer()\<close> and the method \<open>reset\<close>.\<close>

definition ByteBuffer_new :: ByteBuffer where
  "ByteBuffer_new = \<lparr>buff = [], capacity = 0, position = 0\<rparr>"

definition reset :: "ByteBuffer \<Rightarrow> byte list \<Rightarrow> uint32_t \<Rightarrow> ByteBuffer" where
  "reset b bf cap = b\<lparr>buff := bf, capacity := cap, position := 0\<rparr>"

section \<open>BatchHandler\<close>

text \<open>
  The calls that reach the java side, in the order they are made. \<open>FlushOutput n bs\<close> is a
  call \<open>flushOutput(n)\<close>, together with the block \<open>bs\<close> of bytes it hands over.
\<close>

datatype java_call = FlushOutput uint32_t "byte list" | FinishOutput

text \<open>
  The fields of \<open>class BatchHandler\<close> (\<open>_ib\<close>, \<open>_ob\<close>, \<open>_tempJNIEnv\<close>, \<open>_tempJProcessor\<close>,
  \<open>_hasJavaException\<close>), and the history \<open>javaCalls\<close> of the calls made to the java side.
  The two \<open>void *\<close> handles are opaque addresses.
\<close>

record BatchHandler =
  ib :: ByteBuffer
  ob :: ByteBuffer
  tempJNIEnv :: nat
  tempJProcessor :: nat
  hasJavaException :: bool
  javaCalls :: "java_call list"

text \<open>
  Modelled from the spec: the constructor \<open>BatchHandler()\<close> is declared in \<open>BatchHandler.h\<close>
  and defined elsewhere. By the spec a handler is uninitialised before setup: the regions are
  as \<open>ByteBuffer()\<close> builds them, the handles are null, no fault is recorded, and nothing
  has been sent to the java side.
\<close>

definition BatchHandler_new :: BatchHandler where
  "BatchHandler_new =
     \<lparr>ib = ByteBuffer_new, ob = ByteBuffer_new, tempJNIEnv = 0, tempJProcessor = 0,
      hasJavaException = False, javaCalls = []\<rparr>"

text \<open>
  Modelled from the spec: the macro \<open>THROW_EXCEPTION\<close> is defined in a header that is not
  part of the sources at hand. By the spec the bounds violation is signalled as a fault that
  aborts the current operation: \<open>THROW_EXCEPTION(IOException, msg)\<close> throws an
  \<open>IOException\<close> that carries the message \<open>msg\<close>.
\<close>

datatype exception = IOException string

text \<open>
  How a call ends: it returns, it throws, or it reads or writes memory outside the block a
  pointer refers to, where C++ leaves the behaviour undefined. A call that has ended comes
  with the state the handler is in at that moment; \<open>None\<close> is a call that never ends.
\<close>

datatype outcome = Returned | Thrown exception | MemoryFault

type_synonym result = "(outcome \<times> BatchHandler) option"

definition setTemps :: "BatchHandler \<Rightarrow> nat \<Rightarrow> nat \<Rightarrow> BatchHandler" where
  "setTemps h jenv processor = h\<lparr>tempJNIEnv := jenv, tempJProcessor := processor\<rparr>"

definition set_ob_position :: "BatchHandler \<Rightarrow> uint32_t \<Rightarrow> BatchHandler" where
  "set_ob_position h p = h\<lparr>ob := (ob h)\<lparr>position := p\<rparr>\<rparr>"

definition set_ob_buff :: "BatchHandler \<Rightarrow> byte list \<Rightarrow> BatchHandler" where
  "set_ob_buff h m = h\<lparr>ob := (ob h)\<lparr>buff := m\<rparr>\<rparr>"

subsection \<open>Memory access\<close>

text \<open>
  Writing the bytes \<open>bs\<close> at offset \<open>off\<close> of the block \<open>m\<close>. \<open>None\<close>: the write leaves
  the block.
\<close>

definition mem_write :: "byte list \<Rightarrow> nat \<Rightarrow> byte list \<Rightarrow> byte list option" where
  "mem_write m off bs =
     (if off + length bs \<le> length m
      then Some (take off m @ bs @ drop (off + length bs) m)
      else None)"

text \<open>
  Modelled from the spec: \<open>simple_memcpy\<close> is defined in a header that is not part of the
  sources at hand. The spec has it copy the given number of bytes into the region at
  \<open>position\<close>: \<open>simple_memcpy (dest + off) src n\<close> copies the first \<open>n\<close> bytes of \<open>src\<close> to offset
  \<open>off\<close> of \<open>dest\<close>. \<open>None\<close>: fewer than \<open>n\<close> bytes can be read from \<open>src\<close>, or the
  write leaves \<open>dest\<close>.
\<close>

definition simple_memcpy :: "byte list \<Rightarrow> nat \<Rightarrow> byte list \<Rightarrow> nat \<Rightarrow> byte list option" where
  "simple_memcpy dest off src n =
     (if n \<le> length src then mem_write dest off (take n src) else None)"

text \<open>
  The four bytes of a \<open>uint32_t\<close> in the byte order of the host, taken to be little-endian.
  No property below depends on the order.
\<close>

definition uint32_bytes :: "uint32_t \<Rightarrow> byte list" where
  "uint32_bytes v =
     [ucast v, ucast (drop_bit 8 v), ucast (drop_bit 16 v), ucast (drop_bit 24 v)]"

text \<open>The store \<open>*(uint32_t*) (buff + off) = v\<close>.\<close>

definition store_uint32 :: "byte list \<Rightarrow> nat \<Rightarrow> uint32_t \<Rightarrow> byte list option" where
  "store_uint32 m off v = mem_write m off (uint32_bytes v)"

subsection \<open>Calls to the java side\<close>

text \<open>
  Modelled from the spec: \<open>flushOutput\<close> is declared in \<open>BatchHandler.h\<close> and defined in a
  file that is not part of the sources at hand. By the spec the java side consumes exactly
  \<open>length\<close> bytes of the output buffer, starting at offset 0, before the call returns. The
  java side is taken to accept every call.
\<close>

definition flushOutput :: "BatchHandler \<Rightarrow> uint32_t \<Rightarrow> BatchHandler" where
  "flushOutput h len =
     h\<lparr>javaCalls := javaCalls h @ [FlushOutput len (take (unat len) (buff (ob h)))]\<rparr>"

text \<open>
  Modelled from the spec: \<open>finishOutput\<close> is declared in \<open>BatchHandler.h\<close> and defined
  elsewhere. By the spec it signals the java side that the output is finished.
\<close>

definition finishOutput :: "BatchHandler \<Rightarrow> BatchHandler" where
  "finishOutput h = h\<lparr>javaCalls := javaCalls h @ [FinishOutput]\<rparr>"

subsection \<open>Buffered output\<close>

text \<open>
  \<open>put\<close>: the \<open>while\<close> loop as a recursive function on the state of the handler, the rest
  of the source block and the remaining length. The loop is not bounded by the source, so
  \<open>None\<close> stands for a call that never returns.
\<close>

partial_function (option) put :: "BatchHandler \<Rightarrow> byte list \<Rightarrow> uint32_t \<Rightarrow> result" where
  "put h bf len =
     (if len > 0 then
        let h1 = (if position (ob h) + len > capacity (ob h)
                  then set_ob_position (flushOutput h (position (ob h))) 0
                  else h);
            remain = capacity (ob h1) - position (ob h1);
            cp = (if len < remain then len else remain)
        in case simple_memcpy (buff (ob h1)) (unat (position (ob h1))) bf (unat cp) of
             None \<Rightarrow> Some (MemoryFault, h1)
           | Some m \<Rightarrow>
               put (set_ob_position (set_ob_buff h1 m) (position (ob h1) + cp))
                 (drop (unat cp) bf) (len - cp)
      else Some (Returned, h))"

declare put.simps [code]

definition putInt :: "BatchHandler \<Rightarrow> uint32_t \<Rightarrow> outcome \<times> BatchHandler" where
  "putInt h v =
     (let h1 = (if position (ob h) + 4 > capacity (ob h)
                then set_ob_position (flushOutput h (position (ob h))) 0
                else h)
      in case store_uint32 (buff (ob h1)) (unat (position (ob h1))) v of
           None \<Rightarrow> (MemoryFault, h1)
         | Some m \<Rightarrow> (Returned, set_ob_position (set_ob_buff h1 m) (position (ob h1) + 4)))"

definition flush :: "BatchHandler \<Rightarrow> BatchHandler" where
  "flush h =
     (if position (ob h) > 0
      then set_ob_position (flushOutput h (position (ob h))) 0
      else h)"

subsection \<open>Hooks and entry points\<close>

text \<open>The defaults of the virtual methods \<open>finish\<close> and \<open>handleInput\<close>.\<close>

definition finish :: "BatchHandler \<Rightarrow> BatchHandler" where
  "finish h = finishOutput (flush h)"

definition handleInput :: "byte list \<Rightarrow> uint32_t \<Rightarrow> BatchHandler \<Rightarrow> result" where
  "handleInput bf len h = Some (Returned, h)"

text \<open>
  Modelled from the spec: \<open>onSetup\<close> is declared in \<open>BatchHandler.h\<close> and defined elsewhere.
  By the spec it binds both regions with \<open>reset\<close> and then calls the hook \<open>setup()\<close>, which
  does nothing by default.
\<close>

definition onSetup ::
  "BatchHandler \<Rightarrow> byte list \<Rightarrow> uint32_t \<Rightarrow> byte list \<Rightarrow> uint32_t \<Rightarrow> BatchHandler" where
  "onSetup h inputBuffer inputBufferCapacity outputBuffer outputBufferCapacity =
     h\<lparr>ib := reset (ib h) inputBuffer inputBufferCapacity,
       ob := reset (ob h) outputBuffer outputBufferCapacity\<rparr>"

text \<open>
  \<open>onInputData\<close> calls the virtual method \<open>handleInput\<close>; the method that is bound is the
  first argument here.
\<close>

definition onInputData ::
  "(byte list \<Rightarrow> uint32_t \<Rightarrow> BatchHandler \<Rightarrow> result) \<Rightarrow> BatchHandler \<Rightarrow> uint32_t \<Rightarrow> result" where
  "onInputData handleInput_impl h len =
     (if len > capacity (ib h)
      then Some (Thrown (IOException ''length larger than input buffer capacity''), h)
      else handleInput_impl (buff (ib h)) len (h\<lparr>ib := (ib h)\<lparr>position := len\<rparr>\<rparr>))"

definition onFinish :: "BatchHandler \<Rightarrow> BatchHandler" where
  "onFinish h = finish h"

text \<open>An extension that copies every input chunk to the output: \<open>handleInput\<close> calls \<open>put\<close>.\<close>

definition echo_handleInput :: "byte list \<Rightarrow> uint32_t \<Rightarrow> BatchHandler \<Rightarrow> result" where
  "echo_handleInput bf len h = put h bf len"

section \<open>Sequences of calls and what they hand over\<close>

text \<open>
  A call of one of the helpers an extension writes its output with, and a sequence of such
  calls made one after the other. The sequence stops at the first call that does not return.
\<close>

datatype write_call = Put "byte list" uint32_t | PutInt uint32_t | Flush

fun do_call :: "BatchHandler \<Rightarrow> write_call \<Rightarrow> result" where
  "do_call h (Put bf len) = put h bf len"
| "do_call h (PutInt v) = Some (putInt h v)"
| "do_call h Flush = Some (Returned, flush h)"

fun do_calls :: "BatchHandler \<Rightarrow> write_call list \<Rightarrow> result" where
  "do_calls h [] = Some (Returned, h)"
| "do_calls h (c # cs) =
     (case do_call h c of
        None \<Rightarrow> None
      | Some (r, h') \<Rightarrow> if r = Returned then do_calls h' cs else Some (r, h'))"

fun is_put :: "write_call \<Rightarrow> bool" where
  "is_put (Put bf len) = True"
| "is_put (PutInt v) = False"
| "is_put Flush = False"

text \<open>The bytes a call is asked to write.\<close>

fun written :: "write_call \<Rightarrow> byte list" where
  "written (Put bf len) = take (unat len) bf"
| "written (PutInt v) = uint32_bytes v"
| "written Flush = []"

text \<open>
  The bytes handed to the java side so far, the bytes waiting in the output buffer (offsets
  \<open>0\<close> to \<open>position\<close>), and both in sequence.
\<close>

fun call_bytes :: "java_call \<Rightarrow> byte list" where
  "call_bytes (FlushOutput n bs) = bs"
| "call_bytes FinishOutput = []"

definition flushed :: "BatchHandler \<Rightarrow> byte list" where
  "flushed h = concat (map call_bytes (javaCalls h))"

definition buffered :: "BatchHandler \<Rightarrow> byte list" where
  "buffered h = take (unat (position (ob h))) (buff (ob h))"

definition output_bytes :: "BatchHandler \<Rightarrow> byte list" where
  "output_bytes h = flushed h @ buffered h"

text \<open>
  The output region is in order: \<open>capacity\<close> is the size of the block behind \<open>buff\<close>, and
  \<open>position\<close> lies within it.
\<close>

definition ob_ok :: "BatchHandler \<Rightarrow> bool" where
  "ob_ok h \<longleftrightarrow>
     length (buff (ob h)) = unat (capacity (ob h)) \<and> position (ob h) \<le> capacity (ob h)"

text \<open>
  A call that stays clear of the corner cases of the code, in the state it is made in: the
  source block holds the bytes asked for, \<open>position\<close> plus the length to be written does
  not pass \<open>2 ^ 32 - 1\<close>, \<open>put\<close> of some bytes has a buffer of some size, and \<open>putInt\<close> has
  one of four bytes or more. A sequence of calls fits when each call that is reached fits
  in the state the calls before it have left.
\<close>

fun fits_at :: "BatchHandler \<Rightarrow> write_call \<Rightarrow> bool" where
  "fits_at h (Put bf len) \<longleftrightarrow>
     unat len \<le> length bf \<and> unat (position (ob h)) + unat len < 2 ^ 32 \<and>
     (0 < len \<longrightarrow> 0 < capacity (ob h))"
| "fits_at h (PutInt v) \<longleftrightarrow>
     4 \<le> capacity (ob h) \<and> unat (position (ob h)) + 4 < 2 ^ 32"
| "fits_at h Flush \<longleftrightarrow> True"

fun all_fit :: "BatchHandler \<Rightarrow> write_call list \<Rightarrow> bool" where
  "all_fit h [] \<longleftrightarrow> True"
| "all_fit h (c # cs) \<longleftrightarrow>
     fits_at h c \<and>
     (case do_call h c of
        None \<Rightarrow> True
      | Some (r, h') \<Rightarrow> r = Returned \<longrightarrow> all_fit h' cs)"

text \<open>
  A condition that can be read off a call and the capacity alone, and is enough for the
  call to fit in every state of a region that is in order.
\<close>

fun call_fits :: "uint32_t \<Rightarrow> write_call \<Rightarrow> bool" where
  "call_fits cap (Put bf len) \<longleftrightarrow>
     unat len \<le> length bf \<and> unat cap + unat len < 2 ^ 32 \<and> (0 < len \<longrightarrow> 0 < cap)"
| "call_fits cap (PutInt v) \<longleftrightarrow> 4 \<le> cap \<and> unat cap + 4 < 2 ^ 32"
| "call_fits cap Flush \<longleftrightarrow> True"

subsection \<open>The parts of one round of the loop\<close>

text \<open>
  The three steps \<open>put\<close> and \<open>putInt\<close> are made of: flushing when \<open>n\<close> more bytes do not
  fit, the number of bytes \<open>put\<close> copies in one round, and storing the new block while moving
  \<open>position\<close> on.
\<close>

definition make_room :: "BatchHandler \<Rightarrow> uint32_t \<Rightarrow> BatchHandler" where
  "make_room h n =
     (if position (ob h) + n > capacity (ob h)
      then set_ob_position (flushOutput h (position (ob h))) 0
      else h)"

definition chunk :: "BatchHandler \<Rightarrow> uint32_t \<Rightarrow> uint32_t" where
  "chunk h1 len =
     (if len < capacity (ob h1) - position (ob h1) then len
      else capacity (ob h1) - position (ob h1))"

definition advance :: "BatchHandler \<Rightarrow> byte list \<Rightarrow> uint32_t \<Rightarrow> BatchHandler" where
  "advance h m n = set_ob_position (set_ob_buff h m) (position (ob h) + n)"

text \<open>What a call of \<open>put\<close> that ends leaves behind, when it starts with the region in order.\<close>

definition put_post ::
  "BatchHandler \<Rightarrow> byte list \<Rightarrow> uint32_t \<Rightarrow> outcome \<times> BatchHandler \<Rightarrow> bool" where
  "put_post h bf len y \<longleftrightarrow>
     (ob_ok h \<longrightarrow>
        ob_ok (snd y) \<and> capacity (ob (snd y)) = capacity (ob h) \<and> ib (snd y) = ib h \<and>
        (fst y = Returned \<longrightarrow>
           unat len \<le> length bf \<and>
           output_bytes (snd y) = output_bytes h @ take (unat len) bf))"

definition put_keeps ::
  "BatchHandler \<Rightarrow> byte list \<Rightarrow> uint32_t \<Rightarrow> outcome \<times> BatchHandler \<Rightarrow> bool" where
  "put_keeps h bf len y \<longleftrightarrow>
     (position (ob h) \<le> capacity (ob h) \<longrightarrow>
        position (ob (snd y)) \<le> capacity (ob (snd y)) \<and>
        capacity (ob (snd y)) = capacity (ob h))"

text \<open>
  A state in which \<open>put\<close> goes round without copying a byte: \<open>position\<close> has reached
  \<open>capacity\<close>, and either the capacity is 0, or \<open>position + len\<close> wraps around to a value
  that is not above \<open>capacity\<close>, so that the buffer is not flushed.
\<close>

definition spinning :: "BatchHandler \<Rightarrow> uint32_t \<Rightarrow> bool" where
  "spinning h len \<longleftrightarrow>
     0 < len \<and> position (ob h) = capacity (ob h) \<and>
     unat (capacity (ob h)) \<le> length (buff (ob h)) \<and>
     (capacity (ob h) = 0 \<or> \<not> position (ob h) + len > capacity (ob h))"

section \<open>Concrete handlers\<close>

text \<open>A handler given by its two regions and the calls the java side has seen.\<close>

definition handler_with :: "ByteBuffer \<Rightarrow> ByteBuffer \<Rightarrow> java_call list \<Rightarrow> BatchHandler" where
  "handler_with i b cs =
     \<lparr>ib = i, ob = b, tempJNIEnv = 0, tempJProcessor = 0, hasJavaException = False,
      javaCalls = cs\<rparr>"

text \<open>After \<open>onSetup\<close> with an output buffer of 8 bytes and no input buffer.\<close>

definition handler8 :: BatchHandler where
  "handler8 = onSetup BatchHandler_new [] 0 [0, 0, 0, 0, 0, 0, 0, 0] 8"

text \<open>A run of all three helpers on \<open>handler8\<close>, and the state it ends in.\<close>

definition demo_calls :: "write_call list" where
  "demo_calls =
     [Put [1, 2, 3, 4, 5] 5, PutInt 0x0A0B0C0D, Put [6, 7, 8, 9, 10, 11, 12, 13, 14, 15] 10,
      Flush, PutInt 7]"

definition demo_final :: BatchHandler where
  "demo_final =
     handler_with \<lparr>buff = [], capacity = 0, position = 0\<rparr>
       \<lparr>buff = [7, 0, 0, 0, 10, 11, 12, 13], capacity = 8, position = 4\<rparr>
       [FlushOutput 5 [1, 2, 3, 4, 5], FlushOutput 4 [13, 12, 11, 10],
        FlushOutput 8 [6, 7, 8, 9, 10, 11, 12, 13], FlushOutput 2 [14, 15]]"

text \<open>Two calls of \<open>put\<close> on \<open>handler8\<close>, and the state they end in.\<close>

definition two_puts :: "write_call list" where
  "two_puts = [Put [1, 2, 3, 4, 5, 6, 7, 8, 9, 10] 10, Put [11, 12, 13] 3]"

definition two_puts_final :: BatchHandler where
  "two_puts_final =
     handler_with \<lparr>buff = [], capacity = 0, position = 0\<rparr>
       \<lparr>buff = [9, 10, 11, 12, 13, 6, 7, 8], capacity = 8, position = 5\<rparr>
       [FlushOutput 0 [], FlushOutput 8 [1, 2, 3, 4, 5, 6, 7, 8]]"

text \<open>Six bytes waiting in a buffer of 8: the state of \<open>handler8\<close> after \<open>put\<close> of six bytes.\<close>

definition six_buffered :: BatchHandler where
  "six_buffered =
     handler_with \<lparr>buff = [], capacity = 0, position = 0\<rparr>
       \<lparr>buff = [1, 2, 3, 4, 5, 6, 0, 0], capacity = 8, position = 6\<rparr> []"

text \<open>The state \<open>put\<close> of ten bytes leaves \<open>handler8\<close> in.\<close>

definition scenario_A_final :: BatchHandler where
  "scenario_A_final =
     handler_with \<lparr>buff = [], capacity = 0, position = 0\<rparr>
       \<lparr>buff = [9, 10, 3, 4, 5, 6, 7, 8], capacity = 8, position = 2\<rparr>
       [FlushOutput 0 [], FlushOutput 8 [1, 2, 3, 4, 5, 6, 7, 8]]"

text \<open>The buffer of 8 bytes when it is full: the state of \<open>handler8\<close> after \<open>put\<close> of eight bytes.\<close>

definition full8 :: BatchHandler where
  "full8 =
     handler_with \<lparr>buff = [], capacity = 0, position = 0\<rparr>
       \<lparr>buff = [1, 2, 3, 4, 5, 6, 7, 8], capacity = 8, position = 8\<rparr> []"

text \<open>After \<open>onSetup\<close> with an output buffer of no bytes.\<close>

definition handler0 :: BatchHandler where
  "handler0 = onSetup BatchHandler_new [] 0 [] 0"

text \<open>An output buffer of \<open>2 ^ 32 - 1\<close> bytes, the largest capacity, with three bytes of room left.\<close>

definition huge :: BatchHandler where
  "huge =
     handler_with \<lparr>buff = [], capacity = 0, position = 0\<rparr>
       \<lparr>buff = replicate 4294967295 0, capacity = 0xFFFFFFFF, position = 0xFFFFFFFD\<rparr> []"

text \<open>
  Scenario B of the spec: after \<open>onSetup\<close> with an output buffer of 3 bytes, one byte is
  put and then an integer. \<open>one_in_three\<close> is the state between the two calls, and
  \<open>scenario_B_fault\<close> the state in which the store of the integer leaves the buffer.
\<close>

definition handler3 :: BatchHandler where
  "handler3 = onSetup BatchHandler_new [] 0 [0, 0, 0] 3"

definition scenario_B_calls :: "write_call list" where
  "scenario_B_calls = [Put [9] 1, PutInt 42]"

definition one_in_three :: BatchHandler where
  "one_in_three =
     handler_with \<lparr>buff = [], capacity = 0, position = 0\<rparr>
       \<lparr>buff = [9, 0, 0], capacity = 3, position = 1\<rparr> []"

definition scenario_B_fault :: BatchHandler where
  "scenario_B_fault =
     handler_with \<lparr>buff = [], capacity = 0, position = 0\<rparr>
       \<lparr>buff = [9, 0, 0], capacity = 3, position = 0\<rparr> [FlushOutput 1 [9]]"

text \<open>After \<open>onSetup\<close> with an input buffer of 64 bytes, and with one of 4 bytes.\<close>

definition input64 :: BatchHandler where
  "input64 = onSetup BatchHandler_new (replicate 64 0) 64 [0, 0, 0, 0, 0, 0, 0, 0] 8"

definition input4 :: BatchHandler where
  "input4 = onSetup BatchHandler_new [5, 6, 7, 0] 4 [0, 0, 0, 0, 0, 0, 0, 0] 8"

text \<open>The state after three bytes of input have been delivered to \<open>input4\<close> and echoed.\<close>

definition input4_echoed :: BatchHandler where
  "input4_echoed =
     handler_with \<lparr>buff = [5, 6, 7, 0], capacity = 4, position = 3\<rparr>
       \<lparr>buff = [5, 6, 7, 0, 0, 0, 0, 0], capacity = 8, position = 3\<rparr> []"

section \<open>Properties of the buffered output\<close>

subsection \<open>Arithmetic on \<open>uint32_t\<close>\<close>

lemma unat_add32:
  fixes a b c :: uint32_t
  assumes "unat a + unat b \<le> unat c"
  shows "unat (a + b) = unat a + unat b"
proof -
  have "unat c < 2 ^ LENGTH(32)"
    by (rule unsigned_less)
  with assms have "unat a + unat b < 2 ^ LENGTH(32)"
    by linarith
  then show ?thesis
    using unat_add_lem [of a b] by blast
qed

lemma ob_ok_position: "ob_ok h \<Longrightarrow> unat (position (ob h)) \<le> unat (capacity (ob h))"
  by (simp add: ob_ok_def word_le_nat_alt)

subsection \<open>Memory\<close>

lemma mem_write_length: "mem_write m off bs = Some m' \<Longrightarrow> length m' = length m"
  by (auto simp: mem_write_def split: if_splits)

lemma mem_write_take:
  "mem_write m off bs = Some m' \<Longrightarrow> take (off + length bs) m' = take off m @ bs"
  by (auto simp: mem_write_def split: if_splits)

lemma mem_write_bound: "mem_write m off bs = Some m' \<Longrightarrow> off + length bs \<le> length m"
  by (auto simp: mem_write_def split: if_splits)

lemma simple_memcpy_SomeD:
  "simple_memcpy dest off src n = Some m \<Longrightarrow>
     n \<le> length src \<and> mem_write dest off (take n src) = Some m"
  by (simp add: simple_memcpy_def split: if_splits)

lemma length_uint32_bytes: "length (uint32_bytes v) = 4"
  by (simp add: uint32_bytes_def)

subsection \<open>Making room\<close>

lemma make_room_ob_ok: "ob_ok h \<Longrightarrow> ob_ok (make_room h n)"
  by (simp add: make_room_def ob_ok_def set_ob_position_def flushOutput_def)

lemma make_room_fields:
  "capacity (ob (make_room h n)) = capacity (ob h)"
  "buff (ob (make_room h n)) = buff (ob h)"
  "ib (make_room h n) = ib h"
  by (simp_all add: make_room_def set_ob_position_def flushOutput_def)

lemma make_room_position:
  "position (ob (make_room h n)) =
     (if position (ob h) + n > capacity (ob h) then 0 else position (ob h))"
  by (simp add: make_room_def set_ob_position_def flushOutput_def)

lemma make_room_javaCalls:
  "javaCalls (make_room h n) =
     javaCalls h @
     (if position (ob h) + n > capacity (ob h)
      then [FlushOutput (position (ob h)) (buffered h)] else [])"
  by (simp add: make_room_def set_ob_position_def flushOutput_def buffered_def)

lemma make_room_buffered:
  "buffered (make_room h n) =
     (if position (ob h) + n > capacity (ob h) then [] else buffered h)"
  by (simp add: make_room_def set_ob_position_def flushOutput_def buffered_def)

lemma make_room_output_bytes: "output_bytes (make_room h n) = output_bytes h"
  by (simp add: output_bytes_def flushed_def make_room_javaCalls make_room_buffered)

lemma make_room_keeps:
  "position (ob h) \<le> capacity (ob h) \<Longrightarrow>
     position (ob (make_room h n)) \<le> capacity (ob (make_room h n))"
  by (simp add: make_room_position make_room_fields)

lemma make_room_fits:
  assumes cap: "n \<le> capacity (ob h)"
    and nowrap: "unat (position (ob h)) + unat n < 2 ^ 32"
  shows "unat (position (ob (make_room h n))) + unat n \<le> unat (capacity (ob h))"
proof (cases "position (ob h) + n > capacity (ob h)")
  case True
  with cap show ?thesis
    by (simp add: make_room_position word_le_nat_alt)
next
  case False
  have "unat (position (ob h) + n) = unat (position (ob h)) + unat n"
    using nowrap unat_add_lem [of "position (ob h)" n] by simp
  with False show ?thesis
    by (simp add: make_room_position word_less_nat_alt)
qed

subsection \<open>Storing bytes and moving on\<close>

lemma advance_fields:
  "capacity (ob (advance h m n)) = capacity (ob h)"
  "buff (ob (advance h m n)) = m"
  "position (ob (advance h m n)) = position (ob h) + n"
  "ib (advance h m n) = ib h"
  "javaCalls (advance h m n) = javaCalls h"
  by (simp_all add: advance_def set_ob_position_def set_ob_buff_def)

lemma advance_written:
  assumes ok: "ob_ok h"
    and w: "mem_write (buff (ob h)) (unat (position (ob h))) bs = Some m"
    and n: "unat n = length bs"
  shows "ob_ok (advance h m n)"
    and "buffered (advance h m n) = buffered h @ bs"
    and "output_bytes (advance h m n) = output_bytes h @ bs"
proof -
  from w have b: "unat (position (ob h)) + length bs \<le> length (buff (ob h))"
    by (rule mem_write_bound)
  with ok n have s: "unat (position (ob h)) + unat n \<le> unat (capacity (ob h))"
    by (simp add: ob_ok_def)
  then have u: "unat (position (ob h) + n) = unat (position (ob h)) + unat n"
    by (rule unat_add32)
  show "ob_ok (advance h m n)"
    using ok s u mem_write_length [OF w]
    by (simp add: ob_ok_def advance_fields word_le_nat_alt)
  show t: "buffered (advance h m n) = buffered h @ bs"
    using mem_write_take [OF w] u n by (simp add: buffered_def advance_fields)
  show "output_bytes (advance h m n) = output_bytes h @ bs"
    by (simp add: output_bytes_def flushed_def advance_fields t)
qed

lemma chunk_bounds:
  assumes le: "position (ob h1) \<le> capacity (ob h1)"
  shows "unat (chunk h1 len) \<le> unat len"
    and "unat (position (ob h1)) + unat (chunk h1 len) \<le> unat (capacity (ob h1))"
proof -
  from le have r: "unat (capacity (ob h1) - position (ob h1)) =
      unat (capacity (ob h1)) - unat (position (ob h1))"
    by (rule unat_sub)
  from le have p: "unat (position (ob h1)) \<le> unat (capacity (ob h1))"
    by (simp add: word_le_nat_alt)
  show "unat (chunk h1 len) \<le> unat len"
    by (simp add: chunk_def word_less_nat_alt)
  show "unat (position (ob h1)) + unat (chunk h1 len) \<le> unat (capacity (ob h1))"
    using r p by (auto simp add: chunk_def word_less_nat_alt)
qed

lemma unat_sub_chunk:
  assumes "position (ob h1) \<le> capacity (ob h1)"
  shows "unat (len - chunk h1 len) = unat len - unat (chunk h1 len)"
proof -
  have "chunk h1 len \<le> len"
    using chunk_bounds(1) [OF assms] by (simp add: word_le_nat_alt)
  then show ?thesis
    by (rule unat_sub)
qed

lemma advance_chunk_keeps:
  assumes "position (ob h1) \<le> capacity (ob h1)"
  shows "position (ob (advance h1 m (chunk h1 len))) \<le> capacity (ob (advance h1 m (chunk h1 len)))"
proof -
  note b = chunk_bounds(2) [OF assms, of len]
  then have "unat (position (ob h1) + chunk h1 len) = unat (position (ob h1)) + unat (chunk h1 len)"
    by (rule unat_add32)
  with b show ?thesis
    by (simp add: advance_fields word_le_nat_alt)
qed

lemma chunk_positive:
  assumes ok: "ob_ok h"
    and len: "0 < len"
    and cap: "0 < capacity (ob h)"
    and nowrap: "unat (position (ob h)) + unat len < 2 ^ 32"
  shows "0 < chunk (make_room h len) len"
proof (cases "position (ob h) + len > capacity (ob h)")
  case True
  then have "chunk (make_room h len) len = (if len < capacity (ob h) then len else capacity (ob h))"
    by (simp add: chunk_def make_room_def set_ob_position_def flushOutput_def)
  with len cap show ?thesis
    by simp
next
  case False
  have u: "unat (position (ob h) + len) = unat (position (ob h)) + unat len"
    using nowrap unat_add_lem [of "position (ob h)" len] by simp
  from ok have "position (ob h) \<le> capacity (ob h)"
    by (simp add: ob_ok_def)
  then have r: "unat (capacity (ob h) - position (ob h)) =
      unat (capacity (ob h)) - unat (position (ob h))"
    by (rule unat_sub)
  from False u have "unat (position (ob h)) + unat len \<le> unat (capacity (ob h))"
    by (simp add: word_less_nat_alt)
  with r have "\<not> len < capacity (ob h) - position (ob h) \<Longrightarrow>
      capacity (ob h) - position (ob h) = len"
    by (simp add: word_less_nat_alt word_unat_eq_iff)
  with False len show ?thesis
    by (auto simp add: chunk_def make_room_def)
qed

subsection \<open>The loop of \<open>put\<close>\<close>

lemma put_unfold:
  "put h bf len =
     (if len > 0 then
        case simple_memcpy (buff (ob (make_room h len)))
               (unat (position (ob (make_room h len)))) bf
               (unat (chunk (make_room h len) len)) of
          None \<Rightarrow> Some (MemoryFault, make_room h len)
        | Some m \<Rightarrow>
            put (advance (make_room h len) m (chunk (make_room h len) len))
              (drop (unat (chunk (make_room h len) len)) bf)
              (len - chunk (make_room h len) len)
      else Some (Returned, h))"
  by (subst put.simps) (simp only: make_room_def advance_def chunk_def Let_def)

lemma put_iteration:
  assumes ok: "ob_ok h"
    and c: "simple_memcpy (buff (ob (make_room h len)))
              (unat (position (ob (make_room h len)))) bf
              (unat (chunk (make_room h len) len)) = Some m"
  shows "ob_ok (advance (make_room h len) m (chunk (make_room h len) len))"
    and "output_bytes (advance (make_room h len) m (chunk (make_room h len) len)) =
           output_bytes h @ take (unat (chunk (make_room h len) len)) bf"
    and "unat (chunk (make_room h len) len) \<le> length bf"
proof -
  let ?h1 = "make_room h len"
  let ?cp = "chunk ?h1 len"
  have ok1: "ob_ok ?h1"
    using ok by (rule make_room_ob_ok)
  from simple_memcpy_SomeD [OF c]
  have n: "unat ?cp \<le> length bf"
    and w: "mem_write (buff (ob ?h1)) (unat (position (ob ?h1))) (take (unat ?cp) bf) = Some m"
    by simp_all
  from n have l: "unat ?cp = length (take (unat ?cp) bf)"
    by simp
  show "ob_ok (advance ?h1 m ?cp)"
    using ok1 w l by (rule advance_written)
  show "output_bytes (advance ?h1 m ?cp) = output_bytes h @ take (unat ?cp) bf"
    using advance_written(3) [OF ok1 w l] by (simp add: make_room_output_bytes)
  show "unat ?cp \<le> length bf"
    by (rule n)
qed

text \<open>
  Whatever a call of \<open>put\<close> ends with, the region is in order again; and when the call
  returns, the output has grown by exactly the bytes that were to be written.
\<close>

lemma put_partial:
  assumes "put h0 bf0 len0 = Some y0"
  shows "put_post h0 bf0 len0 y0"
proof (rule put.raw_induct [where P = put_post, OF _ assms], goal_cases)
  case (1 put h bf len y)
  let ?h1 = "make_room h len"
  let ?cp = "chunk ?h1 len"
  show ?case
    unfolding put_post_def
  proof
    assume ok: "ob_ok h"
    then have ok1: "ob_ok ?h1"
      by (rule make_room_ob_ok)
    then have le1: "position (ob ?h1) \<le> capacity (ob ?h1)"
      by (simp add: ob_ok_def)
    show "ob_ok (snd y) \<and> capacity (ob (snd y)) = capacity (ob h) \<and> ib (snd y) = ib h \<and>
        (fst y = Returned \<longrightarrow>
           unat len \<le> length bf \<and>
           output_bytes (snd y) = output_bytes h @ take (unat len) bf)"
    proof (cases "0 < len")
      case False
      with 1(2) have "y = (Returned, h)" "len = 0"
        by (simp_all add: word_neq_0_conv [symmetric])
      with ok show ?thesis
        by simp
    next
      case True
      show ?thesis
      proof (cases "simple_memcpy (buff (ob ?h1)) (unat (position (ob ?h1))) bf (unat ?cp)")
        case None
        with True 1(2) have "y = (MemoryFault, ?h1)"
          by (simp only: make_room_def chunk_def Let_def) simp
        with ok1 show ?thesis
          by (simp add: make_room_fields)
      next
        case (Some m)
        let ?h2 = "advance ?h1 m ?cp"
        from Some True 1(2) have r: "put ?h2 (drop (unat ?cp) bf) (len - ?cp) = Some y"
          by (simp only: make_room_def chunk_def advance_def Let_def) simp
        note it = put_iteration [OF ok Some]
        from 1(1) [OF r] it(1)
        have a: "ob_ok (snd y)" "capacity (ob (snd y)) = capacity (ob h)" "ib (snd y) = ib h"
          and b: "fst y = Returned \<Longrightarrow>
            unat (len - ?cp) \<le> length (drop (unat ?cp) bf) \<and>
            output_bytes (snd y) = output_bytes ?h2 @ take (unat (len - ?cp)) (drop (unat ?cp) bf)"
          by (simp_all add: put_post_def advance_fields make_room_fields)
        have s: "unat (len - ?cp) = unat len - unat ?cp"
          using le1 by (rule unat_sub_chunk)
        have le: "unat ?cp \<le> unat len"
          using le1 by (rule chunk_bounds)
        have t: "take (unat ?cp) bf @ take (unat len - unat ?cp) (drop (unat ?cp) bf) =
            take (unat len) bf"
          using le by (metis le_add_diff_inverse take_add)
        have "fst y = Returned \<Longrightarrow>
            unat len \<le> length bf \<and> output_bytes (snd y) = output_bytes h @ take (unat len) bf"
          using b it(2) it(3) s le t by auto
        with a show ?thesis
          by simp
      qed
    qed
  qed
qed

text \<open>The same for \<open>position \<le> capacity\<close> alone, whatever the size of the block is.\<close>

lemma put_position:
  assumes "put h0 bf0 len0 = Some y0"
  shows "put_keeps h0 bf0 len0 y0"
proof (rule put.raw_induct [where P = put_keeps, OF _ assms], goal_cases)
  case (1 put h bf len y)
  let ?h1 = "make_room h len"
  let ?cp = "chunk ?h1 len"
  show ?case
    unfolding put_keeps_def
  proof
    assume le: "position (ob h) \<le> capacity (ob h)"
    then have le1: "position (ob ?h1) \<le> capacity (ob ?h1)"
      by (rule make_room_keeps)
    show "position (ob (snd y)) \<le> capacity (ob (snd y)) \<and>
        capacity (ob (snd y)) = capacity (ob h)"
    proof (cases "0 < len")
      case False
      with 1(2) have "y = (Returned, h)"
        by simp
      with le show ?thesis
        by simp
    next
      case True
      show ?thesis
      proof (cases "simple_memcpy (buff (ob ?h1)) (unat (position (ob ?h1))) bf (unat ?cp)")
        case None
        with True 1(2) have "y = (MemoryFault, ?h1)"
          by (simp only: make_room_def chunk_def Let_def) simp
        with le1 show ?thesis
          by (simp add: make_room_fields)
      next
        case (Some m)
        let ?h2 = "advance ?h1 m ?cp"
        from Some True 1(2) have r: "put ?h2 (drop (unat ?cp) bf) (len - ?cp) = Some y"
          by (simp only: make_room_def chunk_def advance_def Let_def) simp
        have "position (ob ?h2) \<le> capacity (ob ?h2)"
          using le1 by (rule advance_chunk_keeps)
        with 1(1) [OF r] show ?thesis
          by (auto simp add: put_keeps_def advance_fields make_room_fields)
      qed
    qed
  qed
qed

text \<open>
  A call of \<open>put\<close> returns when the region is in order, the source block is long enough,
  \<open>position + len\<close> does not wrap around, and the buffer has room for a byte.
\<close>

lemma put_returns:
  assumes "ob_ok h"
    and "unat len \<le> length bf"
    and "unat (position (ob h)) + unat len < 2 ^ 32"
    and "0 < len \<longrightarrow> 0 < capacity (ob h)"
  shows "\<exists>h'. put h bf len = Some (Returned, h')"
  using assms
proof (induction "unat len" arbitrary: h bf len rule: less_induct)
  case less
  let ?h1 = "make_room h len"
  let ?cp = "chunk ?h1 len"
  show ?case
  proof (cases "0 < len")
    case False
    then show ?thesis
      by (subst put_unfold) simp
  next
    case True
    have ok1: "ob_ok ?h1"
      using less.prems(1) by (rule make_room_ob_ok)
    then have le1: "position (ob ?h1) \<le> capacity (ob ?h1)"
      by (simp add: ob_ok_def)
    note cb = chunk_bounds [OF le1, of len]
    have pos: "0 < ?cp"
      using less.prems(1) True _ less.prems(3)
      by (rule chunk_positive) (use less.prems(4) True in simp)
    have "unat ?cp \<le> length bf"
      using cb(1) less.prems(2) by simp
    moreover have "unat (position (ob ?h1)) + unat ?cp \<le> length (buff (ob ?h1))"
      using cb(2) ok1 by (simp add: ob_ok_def)
    ultimately obtain m where
      c: "simple_memcpy (buff (ob ?h1)) (unat (position (ob ?h1))) bf (unat ?cp) = Some m"
      by (simp add: simple_memcpy_def mem_write_def)
    let ?h2 = "advance ?h1 m ?cp"
    note it = put_iteration [OF less.prems(1) c]
    have s: "unat (len - ?cp) = unat len - unat ?cp"
      using le1 by (rule unat_sub_chunk)
    have p2: "unat (position (ob ?h2)) = unat (position (ob ?h1)) + unat ?cp"
      using cb(2) by (simp add: advance_fields unat_add32)
    have p1: "unat (position (ob ?h1)) \<le> unat (position (ob h))"
      by (simp add: make_room_position)
    have "unat (len - ?cp) < unat len"
      using s pos cb(1) by (simp add: word_less_nat_alt)
    moreover have "unat (len - ?cp) \<le> length (drop (unat ?cp) bf)"
      using s less.prems(2) by simp
    moreover have "unat (position (ob ?h2)) + unat (len - ?cp) < 2 ^ 32"
      using s p2 cb(1) less.prems(3) p1 by simp
    moreover have "0 < len - ?cp \<longrightarrow> 0 < capacity (ob ?h2)"
      using less.prems(4) True by (simp add: advance_fields make_room_fields)
    ultimately have "\<exists>h'. put ?h2 (drop (unat ?cp) bf) (len - ?cp) = Some (Returned, h')"
      using it(1) by (intro less.hyps)
    with True c show ?thesis
      by (subst put_unfold) simp
  qed
qed

text \<open>From a spinning state every round leads to a spinning state: the call never returns.\<close>

lemma spinning_step:
  assumes "spinning h len"
  shows "chunk (make_room h len) len = 0"
    and "simple_memcpy (buff (ob (make_room h len)))
           (unat (position (ob (make_room h len)))) bf 0 = Some (buff (ob h))"
    and "spinning (advance (make_room h len) (buff (ob h)) 0) len"
proof -
  from assms have p: "position (ob (make_room h len)) = capacity (ob h)"
    by (auto simp add: spinning_def make_room_position)
  then show c: "chunk (make_room h len) len = 0"
    by (simp add: chunk_def make_room_fields)
  from assms p show "simple_memcpy (buff (ob (make_room h len)))
      (unat (position (ob (make_room h len)))) bf 0 = Some (buff (ob h))"
    by (simp add: simple_memcpy_def mem_write_def make_room_fields spinning_def)
  from assms p show "spinning (advance (make_room h len) (buff (ob h)) 0) len"
    by (auto simp add: spinning_def advance_fields make_room_fields)
qed

lemma put_spinning:
  assumes "spinning h0 len0"
  shows "put h0 bf0 len0 = None"
proof (rule ccontr)
  assume "put h0 bf0 len0 \<noteq> None"
  then obtain y0 where r: "put h0 bf0 len0 = Some y0"
    by auto
  have "\<not> spinning h0 len0"
  proof (rule put.raw_induct [where P = "\<lambda>h bf len y. \<not> spinning h len", OF _ r], goal_cases)
    case (1 put h bf len y)
    show ?case
    proof
      assume s: "spinning h len"
      note st = spinning_step(1) [OF s] spinning_step(2) [OF s, of bf] spinning_step(3) [OF s]
      from s have "0 < len"
        by (simp add: spinning_def)
      with 1(2) st(1) st(2)
      have "put (advance (make_room h len) (buff (ob h)) 0) bf len = Some y"
        by (simp only: make_room_def [symmetric] chunk_def [symmetric] Let_def)
          (simp add: advance_def)
      from 1(1) [OF this] st(3) show False
        by simp
    qed
  qed
  with assms show False
    by simp
qed

subsection \<open>\<open>putInt\<close> and \<open>flush\<close>\<close>

lemma putInt_unfold:
  "putInt h v =
     (case store_uint32 (buff (ob (make_room h 4))) (unat (position (ob (make_room h 4)))) v of
        None \<Rightarrow> (MemoryFault, make_room h 4)
      | Some m \<Rightarrow> (Returned, advance (make_room h 4) m 4))"
  unfolding putInt_def make_room_def advance_def Let_def ..

lemma putInt_partial:
  assumes ok: "ob_ok h"
  shows "ob_ok (snd (putInt h v)) \<and> capacity (ob (snd (putInt h v))) = capacity (ob h) \<and>
    (fst (putInt h v) = Returned \<longrightarrow>
       buffered (snd (putInt h v)) = buffered (make_room h 4) @ uint32_bytes v \<and>
       output_bytes (snd (putInt h v)) = output_bytes h @ uint32_bytes v)"
proof -
  let ?h1 = "make_room h 4"
  have ok1: "ob_ok ?h1"
    using ok by (rule make_room_ob_ok)
  show ?thesis
  proof (cases "store_uint32 (buff (ob ?h1)) (unat (position (ob ?h1))) v")
    case None
    with ok1 show ?thesis
      by (simp add: putInt_unfold make_room_fields)
  next
    case (Some m)
    then have w: "mem_write (buff (ob ?h1)) (unat (position (ob ?h1))) (uint32_bytes v) = Some m"
      by (simp add: store_uint32_def)
    have "unat (4 :: uint32_t) = length (uint32_bytes v)"
      by (simp add: length_uint32_bytes)
    from advance_written [OF ok1 w this] Some show ?thesis
      by (simp add: putInt_unfold make_room_output_bytes advance_fields make_room_fields)
  qed
qed

lemma putInt_javaCalls: "javaCalls (snd (putInt h v)) = javaCalls (make_room h 4)"
  by (simp add: putInt_unfold advance_fields split: option.split)

lemma putInt_returns:
  assumes ok: "ob_ok h"
    and cap: "4 \<le> capacity (ob h)"
    and nowrap: "unat (position (ob h)) + 4 < 2 ^ 32"
  shows "fst (putInt h v) = Returned"
proof -
  have "unat (position (ob (make_room h 4))) + unat (4 :: uint32_t) \<le> unat (capacity (ob h))"
    using cap by (rule make_room_fits) (use nowrap in simp)
  then have "unat (position (ob (make_room h 4))) + length (uint32_bytes v)
      \<le> length (buff (ob (make_room h 4)))"
    using ok by (simp add: length_uint32_bytes make_room_fields ob_ok_def)
  then show ?thesis
    by (simp add: putInt_unfold store_uint32_def mem_write_def)
qed

lemma flush_ob_ok: "ob_ok h \<Longrightarrow> ob_ok (flush h)"
  by (simp add: flush_def ob_ok_def set_ob_position_def flushOutput_def)

lemma flush_capacity: "capacity (ob (flush h)) = capacity (ob h)"
  by (simp add: flush_def set_ob_position_def flushOutput_def)

lemma flush_javaCalls:
  "javaCalls (flush h) =
     javaCalls h @ (if 0 < position (ob h) then [FlushOutput (position (ob h)) (buffered h)] else [])"
  by (simp add: flush_def set_ob_position_def flushOutput_def buffered_def)

lemma flush_output_bytes: "output_bytes (flush h) = output_bytes h"
  by (simp add: flush_def output_bytes_def flushed_def buffered_def
      set_ob_position_def flushOutput_def)

subsection \<open>Sequences of calls\<close>

lemma do_call_partial:
  assumes "do_call h c = Some (r, h')" and "ob_ok h"
  shows "ob_ok h' \<and> capacity (ob h') = capacity (ob h) \<and>
    (r = Returned \<longrightarrow> output_bytes h' = output_bytes h @ written c)"
proof (cases c)
  case (Put bf len)
  with assms(1) have "put h bf len = Some (r, h')"
    by simp
  from put_partial [OF this] assms(2) Put show ?thesis
    by (simp add: put_post_def)
next
  case (PutInt v)
  with assms(1) have "putInt h v = (r, h')"
    by simp
  with putInt_partial [OF assms(2), of v] PutInt show ?thesis
    by simp
next
  case Flush
  with assms show ?thesis
    by (auto simp add: flush_ob_ok flush_capacity flush_output_bytes)
qed

lemma do_calls_partial:
  "do_calls h cs = Some (r, h') \<Longrightarrow> ob_ok h \<Longrightarrow>
     ob_ok h' \<and> capacity (ob h') = capacity (ob h) \<and>
     (r = Returned \<longrightarrow> output_bytes h' = output_bytes h @ concat (map written cs))"
proof (induction cs arbitrary: h)
  case Nil
  then show ?case by simp
next
  case (Cons c cs)
  from Cons.prems(1) obtain r1 h1 where c1: "do_call h c = Some (r1, h1)"
    by (cases "do_call h c") auto
  note p = do_call_partial [OF c1 Cons.prems(2)]
  show ?case
  proof (cases "r1 = Returned")
    case True
    with c1 Cons.prems(1) have "do_calls h1 cs = Some (r, h')"
      by simp
    from Cons.IH [OF this] p True show ?thesis
      by simp
  next
    case False
    with c1 Cons.prems(1) have "r = r1" "h' = h1"
      by simp_all
    with p False show ?thesis
      by simp
  qed
qed

lemma do_call_returns:
  assumes "ob_ok h" and "fits_at h c"
  shows "\<exists>h'. do_call h c = Some (Returned, h')"
proof (cases c)
  case (Put bf len)
  have "\<exists>h'. put h bf len = Some (Returned, h')"
    using assms(1)
  proof (rule put_returns)
    show "unat len \<le> length bf"
      using assms(2) Put by simp
    show "unat (position (ob h)) + unat len < 2 ^ 32"
      using assms(2) Put by simp
    show "0 < len \<longrightarrow> 0 < capacity (ob h)"
      using assms(2) Put by simp
  qed
  with Put show ?thesis
    by simp
next
  case (PutInt v)
  have "fst (putInt h v) = Returned"
    using assms(1)
  proof (rule putInt_returns)
    show "4 \<le> capacity (ob h)"
      using assms(2) PutInt by simp
    show "unat (position (ob h)) + 4 < 2 ^ 32"
      using assms(2) PutInt by simp
  qed
  with PutInt show ?thesis
    by (cases "putInt h v") simp
next
  case Flush
  then show ?thesis
    by simp
qed

lemma do_calls_returns:
  "ob_ok h \<Longrightarrow> all_fit h cs \<Longrightarrow> \<exists>h'. do_calls h cs = Some (Returned, h')"
proof (induction cs arbitrary: h)
  case Nil
  then show ?case by simp
next
  case (Cons c cs)
  from Cons.prems(2) have "fits_at h c"
    by simp
  from do_call_returns [OF Cons.prems(1) this]
  obtain h1 where c1: "do_call h c = Some (Returned, h1)" ..
  from do_call_partial [OF c1 Cons.prems(1)] have "ob_ok h1"
    by simp
  moreover from Cons.prems(2) c1 have "all_fit h1 cs"
    by simp
  ultimately have "\<exists>h'. do_calls h1 cs = Some (Returned, h')"
    by (rule Cons.IH)
  with c1 show ?case
    by simp
qed

lemma call_fits_at:
  assumes "ob_ok h" and "call_fits (capacity (ob h)) c"
  shows "fits_at h c"
  using assms(2) ob_ok_position [OF assms(1)] by (cases c) simp_all

lemma all_fit_static:
  "ob_ok h \<Longrightarrow> list_all (call_fits (capacity (ob h))) cs \<Longrightarrow> all_fit h cs"
proof (induction cs arbitrary: h)
  case Nil
  then show ?case by simp
next
  case (Cons c cs)
  from Cons.prems have f: "fits_at h c"
    by (simp add: call_fits_at)
  have "all_fit h' cs" if "do_call h c = Some (Returned, h')" for h'
  proof -
    from do_call_partial [OF that Cons.prems(1)]
    have "ob_ok h'" "capacity (ob h') = capacity (ob h)"
      by simp_all
    with Cons.prems(2) show ?thesis
      by (intro Cons.IH) simp_all
  qed
  with f show ?case
    by (auto split: option.split)
qed

lemma do_calls_position:
  "do_calls h cs = Some (r, h') \<Longrightarrow> list_all is_put cs \<Longrightarrow>
     position (ob h) \<le> capacity (ob h) \<Longrightarrow>
     position (ob h') \<le> capacity (ob h') \<and> capacity (ob h') = capacity (ob h)"
proof (induction cs arbitrary: h)
  case Nil
  then show ?case by simp
next
  case (Cons c cs)
  from Cons.prems(2) obtain bf len where c: "c = Put bf len"
    by (cases c) simp_all
  with Cons.prems(1) obtain r1 h1 where c1: "put h bf len = Some (r1, h1)"
    by (cases "put h bf len") auto
  from put_position [OF c1] Cons.prems(3)
  have k: "position (ob h1) \<le> capacity (ob h1)" "capacity (ob h1) = capacity (ob h)"
    by (auto simp add: put_keeps_def)
  show ?case
  proof (cases "r1 = Returned")
    case True
    with c c1 Cons.prems(1) have "do_calls h1 cs = Some (r, h')"
      by simp
    from Cons.IH [OF this] Cons.prems(2) k show ?thesis
      by auto
  next
    case False
    with c c1 Cons.prems(1) have "h' = h1"
      by simp
    with k show ?thesis
      by simp
  qed
qed

lemma onSetup_ob:
  "ob (onSetup h ibf icap obf ocap) = \<lparr>buff = obf, capacity = ocap, position = 0\<rparr>"
  by (simp add: onSetup_def reset_def)

lemma onSetup_ob_ok: "length obf = unat ocap \<Longrightarrow> ob_ok (onSetup h ibf icap obf ocap)"
  by (simp add: ob_ok_def onSetup_ob)

section \<open>Properties of the handler\<close>

text \<open>
  C1, flush completeness, as far as it holds. Take a handler whose output region is in
  order, as it is after \<open>onSetup\<close> with a buffer of the stated capacity, and any sequence
  of calls of \<open>put\<close>, \<open>putInt\<close> and \<open>flush\<close> in which every call fits when it is made:
  \<open>position\<close> plus the length written does not pass \<open>2 ^ 32 - 1\<close>, the capacity is not 0
  for a \<open>put\<close> of some bytes and at least 4 for a \<open>putInt\<close>. Then all the calls return, and
  the blocks handed to \<open>flushOutput\<close>, in the order of the calls, followed by the bytes
  still in the buffer (offsets \<open>0\<close> to \<open>position\<close>), are what was there before followed
  by all bytes written, in order: none lost, none twice.
\<close>

theorem flush_completeness:
  assumes "ob_ok h" and "all_fit h cs"
  shows "\<exists>h'. do_calls h cs = Some (Returned, h') \<and>
           flushed h' @ buffered h' = flushed h @ buffered h @ concat (map written cs)"
proof -
  from do_calls_returns [OF assms] obtain h' where r: "do_calls h cs = Some (Returned, h')" ..
  from do_calls_partial [OF r assms(1)]
  have "flushed h' @ buffered h' = flushed h @ buffered h @ concat (map written cs)"
    by (simp add: output_bytes_def)
  with r show ?thesis
    by blast
qed

theorem flush_completeness_witness:
  "ob_ok handler8 \<and>
   all_fit handler8 demo_calls \<and>
   do_calls handler8 demo_calls = Some (Returned, demo_final) \<and>
   flushed demo_final @ buffered demo_final =
     [1, 2, 3, 4, 5, 13, 12, 11, 10, 6, 7, 8, 9, 10, 11, 12, 13, 14, 15, 7, 0, 0, 0]"
proof -
  have a: "ob_ok handler8"
    by (simp add: handler8_def onSetup_ob_ok)
  have b: "do_calls handler8 demo_calls = Some (Returned, demo_final)"
    by code_simp
  have "list_all (call_fits (capacity (ob handler8))) demo_calls"
    by (simp add: handler8_def onSetup_ob demo_calls_def)
  with a have c: "all_fit handler8 demo_calls"
    by (rule all_fit_static)
  have d: "flushed handler8 @ buffered handler8 @ concat (map written demo_calls) =
      [1, 2, 3, 4, 5, 13, 12, 11, 10, 6, 7, 8, 9, 10, 11, 12, 13, 14, 15, 7, 0, 0, 0]"
    by code_simp
  from flush_completeness [OF a c] b d
  have "flushed demo_final @ buffered demo_final =
      [1, 2, 3, 4, 5, 13, 12, 11, 10, 6, 7, 8, 9, 10, 11, 12, 13, 14, 15, 7, 0, 0, 0]"
    by simp
  with a b c show ?thesis
    by simp
qed

text \<open>
  Three runs on a region that is in order in which not every byte written comes out. In
  scenario B the buffer of 3 bytes is flushed and the store of the integer then leaves the
  buffer: the byte 9 has been handed over and the four bytes of 42 are nowhere. With a
  buffer of no bytes, \<open>put\<close> of one byte never returns. With the buffer of 8 bytes full,
  \<open>put\<close> of \<open>2 ^ 32 - 8\<close> bytes never returns either.
\<close>

theorem flush_completeness_counterexample:
  "ob_ok handler3 \<and>
   do_calls handler3 scenario_B_calls = Some (MemoryFault, scenario_B_fault) \<and>
   flushed scenario_B_fault @ buffered scenario_B_fault \<noteq>
     concat (map written scenario_B_calls) \<and>
   do_calls handler0 [Put [1] 1] = None \<and>
   do_calls full8 [Put (replicate 4294967288 0) 4294967288] = None"
proof -
  have "ob_ok handler3"
    by (simp add: handler3_def onSetup_ob_ok)
  moreover have "do_calls handler3 scenario_B_calls = Some (MemoryFault, scenario_B_fault)"
    by code_simp
  moreover have "flushed scenario_B_fault @ buffered scenario_B_fault \<noteq>
      concat (map written scenario_B_calls)"
    by (simp add: flushed_def buffered_def scenario_B_fault_def handler_with_def
        scenario_B_calls_def uint32_bytes_def)
  moreover have "spinning handler0 1"
    by (simp add: spinning_def handler0_def onSetup_ob)
  then have "do_calls handler0 [Put [1] 1] = None"
    by (simp add: put_spinning)
  moreover have "spinning full8 4294967288"
    by (simp add: spinning_def full8_def handler_with_def)
  then have "do_calls full8 [Put (replicate 4294967288 0) 4294967288] = None"
    by (simp add: put_spinning)
  ultimately show ?thesis
    by blast
qed

text \<open>
  C2, capacity invariant. After \<open>onSetup\<close>, whatever buffer and capacity it was given, and
  any sequence of calls of \<open>put\<close>: when the last call has ended, \<open>position\<close> of the output
  region is at most its \<open>capacity\<close>, which is still the one \<open>onSetup\<close> has set. Every prefix
  of a sequence is a sequence, so this holds when each of the calls returns.
\<close>

theorem put_capacity_invariant:
  assumes "do_calls (onSetup h inputBuffer inputBufferCapacity outputBuffer outputBufferCapacity) cs
             = Some (r, h')"
    and "list_all is_put cs"
  shows "position (ob h') \<le> capacity (ob h') \<and> capacity (ob h') = outputBufferCapacity"
  using do_calls_position [OF assms] by (auto simp add: onSetup_ob)

theorem put_capacity_invariant_witness:
  "do_calls (onSetup BatchHandler_new [] 0 [0, 0, 0, 0, 0, 0, 0, 0] 8) two_puts
     = Some (Returned, two_puts_final) \<and>
   list_all is_put two_puts \<and>
   position (ob two_puts_final) \<le> capacity (ob two_puts_final) \<and>
   capacity (ob two_puts_final) = 8"
proof -
  have a: "do_calls (onSetup BatchHandler_new [] 0 [0, 0, 0, 0, 0, 0, 0, 0] 8) two_puts
      = Some (Returned, two_puts_final)"
    by code_simp
  have b: "list_all is_put two_puts"
    by (simp add: two_puts_def)
  from put_capacity_invariant [OF a b] a b show ?thesis
    by auto
qed

text \<open>
  C3, integer atomicity, as far as it holds. Whatever the state, a call of \<open>putInt\<close> makes
  at most one call of \<open>flushOutput\<close>, and the block that call hands over holds the bytes
  that were waiting before \<open>putInt\<close> was called, so no byte of the value. When the region
  is in order, its capacity is at least 4 and \<open>position + 4\<close> does not pass \<open>2 ^ 32 - 1\<close>,
  \<open>putInt\<close> returns, it has flushed exactly when fewer than four bytes of room were left,
  and the bytes waiting in the buffer afterwards are those that were not flushed followed
  by the four bytes of the value in one piece, so the next flush hands the four over
  together.
\<close>

theorem putInt_atomic:
  "javaCalls (snd (putInt h v)) =
     javaCalls h @
     (if position (ob h) + 4 > capacity (ob h)
      then [FlushOutput (position (ob h)) (buffered h)] else []) \<and>
   (ob_ok h \<and> 4 \<le> capacity (ob h) \<and> unat (position (ob h)) + 4 < 2 ^ 32 \<longrightarrow>
      fst (putInt h v) = Returned \<and>
      javaCalls (snd (putInt h v)) =
        javaCalls h @
        (if unat (capacity (ob h)) - unat (position (ob h)) < 4
         then [FlushOutput (position (ob h)) (buffered h)] else []) \<and>
      buffered (snd (putInt h v)) =
        (if unat (capacity (ob h)) - unat (position (ob h)) < 4 then [] else buffered h) @
        uint32_bytes v)"
proof
  show c: "javaCalls (snd (putInt h v)) =
      javaCalls h @
      (if position (ob h) + 4 > capacity (ob h)
       then [FlushOutput (position (ob h)) (buffered h)] else [])"
    by (simp add: putInt_javaCalls make_room_javaCalls)
  show "ob_ok h \<and> 4 \<le> capacity (ob h) \<and> unat (position (ob h)) + 4 < 2 ^ 32 \<longrightarrow>
      fst (putInt h v) = Returned \<and>
      javaCalls (snd (putInt h v)) =
        javaCalls h @
        (if unat (capacity (ob h)) - unat (position (ob h)) < 4
         then [FlushOutput (position (ob h)) (buffered h)] else []) \<and>
      buffered (snd (putInt h v)) =
        (if unat (capacity (ob h)) - unat (position (ob h)) < 4 then [] else buffered h) @
        uint32_bytes v"
  proof
    assume a: "ob_ok h \<and> 4 \<le> capacity (ob h) \<and> unat (position (ob h)) + 4 < 2 ^ 32"
    then have ok: "ob_ok h" and cap: "4 \<le> capacity (ob h)"
      and nowrap: "unat (position (ob h)) + 4 < 2 ^ 32"
      by simp_all
    have r: "fst (putInt h v) = Returned"
      using ok cap nowrap by (rule putInt_returns)
    have "unat (position (ob h) + 4) = unat (position (ob h)) + 4"
      using nowrap unat_add_lem [of "position (ob h)" 4] by simp
    with ob_ok_position [OF ok]
    have t: "position (ob h) + 4 > capacity (ob h) \<longleftrightarrow>
        unat (capacity (ob h)) - unat (position (ob h)) < 4"
      by (auto simp add: word_less_nat_alt)
    from putInt_partial [OF ok, of v] r
    have "buffered (snd (putInt h v)) = buffered (make_room h 4) @ uint32_bytes v"
      by simp
    with r c t show "fst (putInt h v) = Returned \<and>
        javaCalls (snd (putInt h v)) =
          javaCalls h @
          (if unat (capacity (ob h)) - unat (position (ob h)) < 4
           then [FlushOutput (position (ob h)) (buffered h)] else []) \<and>
        buffered (snd (putInt h v)) =
          (if unat (capacity (ob h)) - unat (position (ob h)) < 4 then [] else buffered h) @
          uint32_bytes v"
      by (simp add: make_room_buffered)
  qed
qed

theorem putInt_atomic_witness:
  "ob_ok six_buffered \<and>
   4 \<le> capacity (ob six_buffered) \<and>
   unat (position (ob six_buffered)) + 4 < 2 ^ 32 \<and>
   fst (putInt six_buffered 0x01020304) = Returned \<and>
   javaCalls (snd (putInt six_buffered 0x01020304)) = [FlushOutput 6 [1, 2, 3, 4, 5, 6]] \<and>
   buffered (snd (putInt six_buffered 0x01020304)) = [4, 3, 2, 1]"
proof -
  have a: "ob_ok six_buffered"
    by (simp add: ob_ok_def six_buffered_def handler_with_def)
  have b: "4 \<le> capacity (ob six_buffered)"
    by (simp add: six_buffered_def handler_with_def)
  have c: "unat (position (ob six_buffered)) + 4 < 2 ^ 32"
    by (simp add: six_buffered_def handler_with_def)
  have d: "javaCalls six_buffered = []" "position (ob six_buffered) = 6"
    "capacity (ob six_buffered) = 8"
    "buffered six_buffered = [1, 2, 3, 4, 5, 6]" "uint32_bytes 0x01020304 = [4, 3, 2, 1]"
    by (simp_all add: six_buffered_def handler_with_def buffered_def uint32_bytes_def)
  from putInt_atomic [of six_buffered "0x01020304"] a b c
  have "fst (putInt six_buffered 0x01020304) = Returned \<and>
      javaCalls (snd (putInt six_buffered 0x01020304)) =
        javaCalls six_buffered @
        (if unat (capacity (ob six_buffered)) - unat (position (ob six_buffered)) < 4
         then [FlushOutput (position (ob six_buffered)) (buffered six_buffered)] else []) \<and>
      buffered (snd (putInt six_buffered 0x01020304)) =
        (if unat (capacity (ob six_buffered)) - unat (position (ob six_buffered)) < 4
         then [] else buffered six_buffered) @
        uint32_bytes 0x01020304"
    by blast
  then have "fst (putInt six_buffered 0x01020304) = Returned \<and>
      javaCalls (snd (putInt six_buffered 0x01020304)) = [FlushOutput 6 [1, 2, 3, 4, 5, 6]] \<and>
      buffered (snd (putInt six_buffered 0x01020304)) = [4, 3, 2, 1]"
    by (simp add: d)
  with a b c show ?thesis
    by blast
qed

text \<open>
  Two calls of \<open>putInt\<close> on a region that is in order. With the largest capacity and
  three bytes of room left, fewer than four bytes of room remain and yet nothing is
  flushed: \<open>position + 4\<close> wraps around to 1, and the store leaves the buffer. With one
  byte waiting in a buffer of 3 bytes, that byte is flushed, and the integer is not
  buffered: the store leaves the buffer.
\<close>

theorem putInt_atomic_counterexample:
  "ob_ok huge \<and>
   unat (capacity (ob huge)) - unat (position (ob huge)) < 4 \<and>
   javaCalls (snd (putInt huge 42)) = javaCalls huge \<and>
   fst (putInt huge 42) = MemoryFault \<and>
   ob_ok one_in_three \<and>
   javaCalls (snd (putInt one_in_three 42)) = [FlushOutput 1 [9]] \<and>
   fst (putInt one_in_three 42) = MemoryFault"
proof -
  have "ob_ok huge \<and>
      unat (capacity (ob huge)) - unat (position (ob huge)) < 4 \<and>
      javaCalls (snd (putInt huge 42)) = javaCalls huge \<and>
      fst (putInt huge 42) = MemoryFault"
    by (simp add: huge_def handler_with_def ob_ok_def putInt_def store_uint32_def mem_write_def
        uint32_bytes_def)
  moreover have "ob_ok one_in_three"
    by (simp add: ob_ok_def one_in_three_def handler_with_def)
  moreover have "javaCalls (snd (putInt one_in_three 42)) = [FlushOutput 1 [9]]"
    by code_simp
  moreover have "fst (putInt one_in_three 42) = MemoryFault"
    by code_simp
  ultimately show ?thesis
    by blast
qed

text \<open>
  C4, bounds enforcement. When \<open>onInputData\<close> is called with a length above the capacity
  of the input region, the call ends with the \<open>IOException\<close> of the code, and the result is
  the same whatever method \<open>handleInput\<close> is bound to: the hook is not called. Scenario D,
  a length of 100 with a capacity of 64, is the instance below.
\<close>

theorem onInputData_bounds:
  assumes "len > capacity (ib h)"
  shows "map_option fst (onInputData hook h len) =
           Some (Thrown (IOException ''length larger than input buffer capacity'')) \<and>
         onInputData hook h len = onInputData hook' h len"
  using assms by (simp add: onInputData_def)

theorem onInputData_bounds_witness:
  "(100 :: uint32_t) > capacity (ib input64) \<and>
   map_option fst (onInputData echo_handleInput input64 100) =
     Some (Thrown (IOException ''length larger than input buffer capacity'')) \<and>
   onInputData echo_handleInput input64 100 = onInputData handleInput input64 100"
proof -
  have a: "(100 :: uint32_t) > capacity (ib input64)"
    by (simp add: input64_def onSetup_def reset_def)
  from onInputData_bounds [OF a, of echo_handleInput handleInput] a show ?thesis
    by blast
qed

text \<open>
  C5, scenario A, as the code runs it. With an output capacity of 8 and nothing in the
  buffer, one call of \<open>put\<close> with the ten bytes 1 to 10 makes two calls of \<open>flushOutput\<close>:
  the first, made while the buffer is still empty, hands over no byte; the second hands
  over the first eight bytes. The last two bytes wait in the buffer, \<open>position\<close> is 2.
\<close>

theorem put_scenario_A:
  "put handler8 [1, 2, 3, 4, 5, 6, 7, 8, 9, 10] 10 = Some (Returned, scenario_A_final) \<and>
   javaCalls scenario_A_final = [FlushOutput 0 [], FlushOutput 8 [1, 2, 3, 4, 5, 6, 7, 8]] \<and>
   buffered scenario_A_final = [9, 10] \<and>
   position (ob scenario_A_final) = 2"
proof -
  have "put handler8 [1, 2, 3, 4, 5, 6, 7, 8, 9, 10] 10 = Some (Returned, scenario_A_final)"
    by code_simp
  then show ?thesis
    by (simp add: scenario_A_final_def handler_with_def buffered_def)
qed

text \<open>
  The other order, the eight bytes first and the empty block second, is not the order in
  which the java side receives the two calls.
\<close>

theorem put_scenario_A_counterexample:
  "map_option (javaCalls \<circ> snd) (put handler8 [1, 2, 3, 4, 5, 6, 7, 8, 9, 10] 10) \<noteq>
     Some [FlushOutput 8 [1, 2, 3, 4, 5, 6, 7, 8], FlushOutput 0 []]"
  by code_simp

text \<open>
  C6, the loop of \<open>put\<close> ends, as far as it does. A call of \<open>put\<close> returns, after as many
  flushes as it takes, with every byte either handed over or waiting in the buffer and with
  \<open>position\<close> at most \<open>capacity\<close>, for every length, also one above the capacity, provided
  that \<open>position + len\<close> does not pass \<open>2 ^ 32 - 1\<close> and that the buffer has room for a byte
  when there is a byte to write. The region is in order and the source block holds \<open>len\<close>
  bytes.
\<close>

theorem put_terminates:
  assumes "ob_ok h"
    and "unat len \<le> length bf"
    and "unat (position (ob h)) + unat len < 2 ^ 32"
    and "0 < len \<longrightarrow> 0 < capacity (ob h)"
  shows "\<exists>h'. put h bf len = Some (Returned, h') \<and>
           flushed h' @ buffered h' = flushed h @ buffered h @ take (unat len) bf \<and>
           position (ob h') \<le> capacity (ob h')"
proof -
  from put_returns [OF assms] obtain h' where r: "put h bf len = Some (Returned, h')" ..
  from put_partial [OF r] assms(1)
  have "ob_ok h'" and "output_bytes h' = output_bytes h @ take (unat len) bf"
    by (simp_all add: put_post_def)
  then have "flushed h' @ buffered h' = flushed h @ buffered h @ take (unat len) bf"
    and "position (ob h') \<le> capacity (ob h')"
    by (simp_all add: output_bytes_def ob_ok_def)
  with r show ?thesis
    by blast
qed

theorem put_terminates_witness:
  "ob_ok handler8 \<and>
   unat (10 :: uint32_t) \<le> length [1, 2, 3, 4, 5, 6, 7, 8, 9, 10 :: byte] \<and>
   unat (position (ob handler8)) + unat (10 :: uint32_t) < 2 ^ 32 \<and>
   0 < capacity (ob handler8) \<and>
   (\<exists>h'. put handler8 [1, 2, 3, 4, 5, 6, 7, 8, 9, 10] 10 = Some (Returned, h') \<and>
      flushed h' @ buffered h' = [1, 2, 3, 4, 5, 6, 7, 8, 9, 10] \<and>
      position (ob h') \<le> capacity (ob h'))"
proof -
  have a: "ob_ok handler8"
    by (simp add: handler8_def onSetup_ob_ok)
  have b: "unat (10 :: uint32_t) \<le> length [1, 2, 3, 4, 5, 6, 7, 8, 9, 10 :: byte]"
    by simp
  have c: "unat (position (ob handler8)) + unat (10 :: uint32_t) < 2 ^ 32"
    by (simp add: handler8_def onSetup_ob)
  have d: "0 < capacity (ob handler8)"
    by (simp add: handler8_def onSetup_ob)
  then have d': "0 < (10 :: uint32_t) \<longrightarrow> 0 < capacity (ob handler8)"
    by simp
  have e: "flushed handler8 @ buffered handler8 @
      take (unat (10 :: uint32_t)) [1, 2, 3, 4, 5, 6, 7, 8, 9, 10] =
      [1, 2, 3, 4, 5, 6, 7, 8, 9, 10]"
    by (simp add: flushed_def buffered_def handler8_def onSetup_def reset_def
        BatchHandler_new_def)
  from put_terminates [OF a b c d'] e
  have "\<exists>h'. put handler8 [1, 2, 3, 4, 5, 6, 7, 8, 9, 10] 10 = Some (Returned, h') \<and>
      flushed h' @ buffered h' = [1, 2, 3, 4, 5, 6, 7, 8, 9, 10] \<and>
      position (ob h') \<le> capacity (ob h')"
    by simp
  with a b c d show ?thesis
    by blast
qed

text \<open>
  Two calls of \<open>put\<close> that never return. The buffer of 8 bytes is full after eight bytes
  were put; a further call with \<open>2 ^ 32 - 8\<close> bytes finds \<open>position + len\<close> wrapped around
  to 0, does not flush, and copies no byte in any round. And with a buffer of no bytes, a
  call with one byte flushes the empty buffer in every round and copies nothing.
\<close>

theorem put_terminates_counterexample:
  "put handler8 [1, 2, 3, 4, 5, 6, 7, 8] 8 = Some (Returned, full8) \<and>
   put full8 (replicate 4294967288 0) 4294967288 = None \<and>
   put handler0 [1] 1 = None"
proof -
  have "put handler8 [1, 2, 3, 4, 5, 6, 7, 8] 8 = Some (Returned, full8)"
    by code_simp
  moreover have "spinning full8 4294967288"
    by (simp add: spinning_def full8_def handler_with_def)
  then have "put full8 (replicate 4294967288 0) 4294967288 = None"
    by (rule put_spinning)
  moreover have "spinning handler0 1"
    by (simp add: spinning_def handler0_def onSetup_ob)
  then have "put handler0 [1] 1 = None"
    by (rule put_spinning)
  ultimately show ?thesis
    by blast
qed

text \<open>
  C7, the order of \<open>finish\<close>. The default \<open>finish\<close> calls \<open>flushOutput\<close> once, with the
  bytes waiting in the buffer, when \<open>position\<close> is above 0, and not at all otherwise; then it
  calls \<open>finishOutput\<close> once. \<open>onSetup\<close> followed at once by \<open>onFinish\<close> makes the one call
  of \<open>finishOutput\<close> and no call of \<open>flushOutput\<close>.
\<close>

theorem finish_order:
  "javaCalls (finish h) =
     javaCalls h @
     (if position (ob h) > 0 then [FlushOutput (position (ob h)) (buffered h)] else []) @
     [FinishOutput] \<and>
   javaCalls (onFinish (onSetup h inputBuffer inputBufferCapacity outputBuffer outputBufferCapacity))
     = javaCalls h @ [FinishOutput]"
  by (simp add: onFinish_def finish_def finishOutput_def flush_javaCalls onSetup_ob)
    (simp add: onSetup_def)

text \<open>
  C8, \<open>putInt\<close> stays within the buffer. With the region in order, a capacity of at least 4
  and \<open>position + 4\<close> not above \<open>2 ^ 32 - 1\<close>, a call of \<open>putInt\<close> returns without an access
  outside the buffer, leaves the region in order, so \<open>position\<close> is at most \<open>capacity\<close>, and
  the four bytes of the value lie just below \<open>position\<close>.
\<close>

theorem putInt_in_bounds:
  assumes "ob_ok h"
    and "4 \<le> capacity (ob h)"
    and "unat (position (ob h)) + 4 < 2 ^ 32"
  shows "fst (putInt h v) = Returned \<and>
         position (ob (snd (putInt h v))) \<le> capacity (ob (snd (putInt h v))) \<and>
         capacity (ob (snd (putInt h v))) = capacity (ob h) \<and>
         length (buff (ob (snd (putInt h v)))) = length (buff (ob h)) \<and>
         4 \<le> unat (position (ob (snd (putInt h v)))) \<and>
         drop (unat (position (ob (snd (putInt h v)))) - 4) (buffered (snd (putInt h v))) =
           uint32_bytes v"
proof -
  let ?h' = "snd (putInt h v)"
  have r: "fst (putInt h v) = Returned"
    using assms by (rule putInt_returns)
  from putInt_partial [OF assms(1), of v] r
  have ok: "ob_ok ?h'" and c: "capacity (ob ?h') = capacity (ob h)"
    and b: "buffered ?h' = buffered (make_room h 4) @ uint32_bytes v"
    by simp_all
  from ok have l: "length (buffered ?h') = unat (position (ob ?h'))"
    using ob_ok_position [OF ok] by (simp add: buffered_def ob_ok_def)
  from b l have n: "unat (position (ob ?h')) = length (buffered (make_room h 4)) + 4"
    by (simp add: length_uint32_bytes)
  from b n have "drop (unat (position (ob ?h')) - 4) (buffered ?h') = uint32_bytes v"
    by simp
  moreover from ok c assms(1) have "length (buff (ob ?h')) = length (buff (ob h))"
    by (simp add: ob_ok_def)
  moreover from ok have "position (ob ?h') \<le> capacity (ob ?h')"
    by (simp add: ob_ok_def)
  ultimately show ?thesis
    using r c n by simp
qed

theorem putInt_in_bounds_witness:
  "ob_ok six_buffered \<and>
   4 \<le> capacity (ob six_buffered) \<and>
   unat (position (ob six_buffered)) + 4 < 2 ^ 32 \<and>
   fst (putInt six_buffered 42) = Returned \<and>
   position (ob (snd (putInt six_buffered 42))) \<le> capacity (ob (snd (putInt six_buffered 42))) \<and>
   drop (unat (position (ob (snd (putInt six_buffered 42)))) - 4)
     (buffered (snd (putInt six_buffered 42))) = [42, 0, 0, 0]"
proof -
  have a: "ob_ok six_buffered"
    by (simp add: ob_ok_def six_buffered_def handler_with_def)
  have b: "4 \<le> capacity (ob six_buffered)"
    by (simp add: six_buffered_def handler_with_def)
  have c: "unat (position (ob six_buffered)) + 4 < 2 ^ 32"
    by (simp add: six_buffered_def handler_with_def)
  have d: "uint32_bytes 42 = [42, 0, 0, 0]"
    by (simp add: uint32_bytes_def)
  from putInt_in_bounds [OF a b c, of 42] d a b c show ?thesis
    by auto
qed

text \<open>
  With the largest capacity and three bytes of room left, \<open>position + 4\<close> wraps around to
  1, the buffer is not flushed, and the store goes past the end of the buffer.
\<close>

theorem putInt_in_bounds_counterexample:
  "ob_ok huge \<and> 4 \<le> capacity (ob huge) \<and> fst (putInt huge 42) = MemoryFault"
  by (simp add: huge_def handler_with_def ob_ok_def putInt_def store_uint32_def mem_write_def
      uint32_bytes_def)

text \<open>
  C9, input is delivered. When \<open>onInputData\<close> is called with a length that is at most the
  capacity of the input region, it sets \<open>position\<close> of the input region to that length and
  calls \<open>handleInput\<close> with the buffer of the input region and that length; what the call of
  the hook does is what \<open>onInputData\<close> does.
\<close>

theorem onInputData_delivers:
  assumes "len \<le> capacity (ib h)"
  shows "onInputData hook h len = hook (buff (ib h)) len (h\<lparr>ib := (ib h)\<lparr>position := len\<rparr>\<rparr>)"
  using assms by (simp add: onInputData_def not_less [symmetric])

theorem onInputData_delivers_witness:
  "(3 :: uint32_t) \<le> capacity (ib input4) \<and>
   onInputData echo_handleInput input4 3 =
     echo_handleInput [5, 6, 7, 0] 3 (input4\<lparr>ib := (ib input4)\<lparr>position := 3\<rparr>\<rparr>) \<and>
   onInputData echo_handleInput input4 3 = Some (Returned, input4_echoed) \<and>
   position (ib input4_echoed) = 3"
proof -
  have a: "(3 :: uint32_t) \<le> capacity (ib input4)"
    by (simp add: input4_def onSetup_def reset_def)
  have b: "buff (ib input4) = [5, 6, 7, 0]"
    by (simp add: input4_def onSetup_def reset_def)
  have c: "onInputData echo_handleInput input4 3 = Some (Returned, input4_echoed)"
    by code_simp
  have d: "position (ib input4_echoed) = 3"
    by (simp add: input4_echoed_def handler_with_def)
  from onInputData_delivers [OF a, of echo_handleInput] b
  have "onInputData echo_handleInput input4 3 =
      echo_handleInput [5, 6, 7, 0] 3 (input4\<lparr>ib := (ib input4)\<lparr>position := 3\<rparr>\<rparr>)"
    by simp
  with a c d show ?thesis
    by blast
qed

text \<open>
  C10, a failed delivery changes nothing. When \<open>onInputData\<close> is called with a length above
  the capacity of the input region, the state the call ends in is the state it began in:
  the exception is thrown before any field is written, so \<open>position\<close>, \<open>buff\<close> and
  \<open>capacity\<close> of the input region are what they were.
\<close>

theorem onInputData_fault_keeps_state:
  assumes "len > capacity (ib h)"
  shows "map_option snd (onInputData hook h len) = Some h"
  using assms by (simp add: onInputData_def)

theorem onInputData_fault_keeps_state_witness:
  "(100 :: uint32_t) > capacity (ib input4_echoed) \<and>
   map_option snd (onInputData echo_handleInput input4_echoed 100) = Some input4_echoed \<and>
   position (ib input4_echoed) = 3"
proof -
  have a: "(100 :: uint32_t) > capacity (ib input4_echoed)"
    by (simp add: input4_echoed_def handler_with_def)
  have d: "position (ib input4_echoed) = 3"
    by (simp add: input4_echoed_def handler_with_def)
  from onInputData_fault_keeps_state [OF a, of echo_handleInput] a d show ?thesis
    by blast
qed

end
